theory Spec2Isabelle
  imports Complex_Main
begin

section \<open>Differential evolution (de.py): the model\<close>

text \<open>
  The theory embeds \<^verbatim>\<open>src/de.py\<close>: the classes \<^verbatim>\<open>DiffEvol\<close> and
  \<^verbatim>\<open>DiffEvolResult\<close>.  Floating-point numbers are idealised as \<^typ>\<open>real\<close>;
  Python integers are \<^typ>\<open>int\<close>, array indices and lengths are \<^typ>\<open>nat\<close>.
  Rounding, overflow to infinity and the integer arrays that numpy makes of integer
  bounds are therefore not in the model: it decides which entries are copied, compared
  and replaced, and says nothing about the last bit of an arithmetic result.
  The objective function is a pure total function on parameter vectors, which is what
  the optimiser assumes of its caller.
\<close>

subsection \<open>Exceptions and calls that may not return\<close>

datatype error = ValueError | IndexError | AttributeError

text \<open>
  A call that may loop forever has a result of type \<open>(error + 'a) option\<close>:
  \<open>None\<close> is "does not return", \<open>Some (Inl err)\<close> is a raised exception.
  \<open>and_then\<close> is sequencing of two such calls.
\<close>

definition and_then ::
  "(error + 'a) option \<Rightarrow> ('a \<Rightarrow> (error + 'b) option) \<Rightarrow> (error + 'b) option" where
  "and_then m k =
     (case m of None \<Rightarrow> None | Some (Inl err) \<Rightarrow> Some (Inl err) | Some (Inr x) \<Rightarrow> k x)"

subsection \<open>The global generator of numpy.random\<close>

text \<open>
  \<^verbatim>\<open>numpy.random\<close> is library code.  Its global generator is modelled by the
  sequence of raw draws it is still going to produce; every number handed out consumes
  one raw draw.  \<^verbatim>\<open>randint(n)\<close> gives an integer of \<open>[0, n)\<close> and raises
  ValueError for \<open>n \<le> 0\<close>; \<^verbatim>\<open>random()\<close> gives a multiple of \<open>2\<^sup>-\<^sup>5\<^sup>3\<close> in
  \<open>[0, 1)\<close>.  What \<^verbatim>\<open>numpy.random.seed\<close> makes of a seed, the stream it
  sets up or the exception it raises for a seed it does not take, is a parameter
  (\<open>np_seed\<close>) of the constructor's model.
\<close>

type_synonym rng = "nat \<Rightarrow> nat"

definition advance :: "nat \<Rightarrow> rng \<Rightarrow> rng" where
  "advance k g = (\<lambda>j. g (j + k))"

definition randint :: "int \<Rightarrow> rng \<Rightarrow> error + nat \<times> rng" where
  "randint n g = (if n \<le> 0 then Inl ValueError else Inr (g 0 mod nat n, advance 1 g))"

definition uniform :: "nat \<Rightarrow> real" where
  "uniform x = real (x mod 2 ^ 53) / 2 ^ 53"

definition random_vec :: "nat \<Rightarrow> rng \<Rightarrow> real list \<times> rng" where
  "random_vec k g = (map (\<lambda>j. uniform (g j)) [0..<k], advance k g)"

definition random_mat :: "int \<Rightarrow> nat \<Rightarrow> rng \<Rightarrow> error + real list list \<times> rng" where
  "random_mat rows cols g =
     (if rows < 0 then Inl ValueError
      else Inr (map (\<lambda>i. map (\<lambda>j. uniform (g (i * cols + j))) [0..<cols]) [0..<nat rows],
                advance (nat rows * cols) g))"

subsection \<open>Arrays\<close>

text \<open>
  \<^verbatim>\<open>DiffEvolResult\<close> keeps two names for each of its arrays
  (\<^verbatim>\<open>self.pop = self.population\<close>, \<^verbatim>\<open>self.fit = self.fitness\<close>) and
  \<^verbatim>\<open>__call__\<close> reads through one name and writes through the other, so arrays
  live in a store and the object's fields hold addresses.  Matrices and vectors have
  stores of their own; \<open>brk\<close> is the next free address.
\<close>

record heap =
  mats :: "nat \<Rightarrow> real list list"
  vecs :: "nat \<Rightarrow> real list"
  brk :: nat

definition new_mat :: "real list list \<Rightarrow> heap \<Rightarrow> nat \<times> heap" where
  "new_mat m h = (brk h, h\<lparr>mats := (mats h)(brk h := m), brk := brk h + 1\<rparr>)"

definition new_vec :: "real list \<Rightarrow> heap \<Rightarrow> nat \<times> heap" where
  "new_vec v h = (brk h, h\<lparr>vecs := (vecs h)(brk h := v), brk := brk h + 1\<rparr>)"

text \<open>\<^verbatim>\<open>a[k,:]\<close>, \<^verbatim>\<open>a[k,:] = u\<close>, \<^verbatim>\<open>a[k]\<close> and \<^verbatim>\<open>a[k] = x\<close> for \<open>k \<ge> 0\<close>.\<close>

definition get_row :: "heap \<Rightarrow> nat \<Rightarrow> nat \<Rightarrow> error + real list" where
  "get_row h a k = (if k < length (mats h a) then Inr (mats h a ! k) else Inl IndexError)"

definition set_row :: "heap \<Rightarrow> nat \<Rightarrow> nat \<Rightarrow> real list \<Rightarrow> error + heap" where
  "set_row h a k u =
     (if k < length (mats h a) then Inr (h\<lparr>mats := (mats h)(a := (mats h a)[k := u])\<rparr>)
      else Inl IndexError)"

definition get_item :: "heap \<Rightarrow> nat \<Rightarrow> nat \<Rightarrow> error + real" where
  "get_item h a k = (if k < length (vecs h a) then Inr (vecs h a ! k) else Inl IndexError)"

definition set_item :: "heap \<Rightarrow> nat \<Rightarrow> nat \<Rightarrow> real \<Rightarrow> error + heap" where
  "set_item h a k x =
     (if k < length (vecs h a) then Inr (h\<lparr>vecs := (vecs h)(a := (vecs h a)[k := x])\<rparr>)
      else Inl IndexError)"

text \<open>
  Element-wise arithmetic and \<^verbatim>\<open>np.where\<close> on arrays of one shape (every array
  that the engine combines has \<open>n_parm\<close> columns; numpy's broadcasting of other
  shapes is not modelled), \<^verbatim>\<open>tile(x, [reps, 1])\<close>, and \<^verbatim>\<open>np.argmin\<close>, which
  gives the first index of the least entry and raises ValueError on an empty array.
\<close>

definition vadd :: "real list \<Rightarrow> real list \<Rightarrow> real list" where
  "vadd x y = map2 (+) x y"

definition vsub :: "real list \<Rightarrow> real list \<Rightarrow> real list" where
  "vsub x y = map2 (-) x y"

definition vmul :: "real list \<Rightarrow> real list \<Rightarrow> real list" where
  "vmul x y = map2 (*) x y"

definition vscale :: "real \<Rightarrow> real list \<Rightarrow> real list" where
  "vscale c x = map ((*) c) x"

definition madd :: "real list list \<Rightarrow> real list list \<Rightarrow> real list list" where
  "madd a b = map2 vadd a b"

definition mmul :: "real list list \<Rightarrow> real list list \<Rightarrow> real list list" where
  "mmul a b = map2 vmul a b"

definition tile :: "real list \<Rightarrow> int \<Rightarrow> error + real list list" where
  "tile x reps = (if reps < 0 then Inl ValueError else Inr (replicate (nat reps) x))"

definition np_where :: "bool list \<Rightarrow> real list \<Rightarrow> real list \<Rightarrow> real list" where
  "np_where c x y = map (\<lambda>(b, p, q). if b then p else q) (zip c (zip x y))"

definition argmin :: "real list \<Rightarrow> error + nat" where
  "argmin xs =
     (if xs = [] then Inl ValueError
      else Inr (length (takeWhile (\<lambda>x. min_list xs < x) xs)))"

subsection \<open>DiffEvolResult\<close>

record DiffEvolResult =
  population :: nat
  fitness :: nat
  pop :: nat
  fit :: nat
  minidx :: "nat option"

text \<open>\<^verbatim>\<open>DiffEvolResult.__init__(npop, npar, bl, bw)\<close>, lines 104 to 109.\<close>

definition DiffEvolResult_init ::
  "int \<Rightarrow> nat \<Rightarrow> real list list \<Rightarrow> real list list \<Rightarrow> rng \<Rightarrow> heap
     \<Rightarrow> error + DiffEvolResult \<times> rng \<times> heap" where
  "DiffEvolResult_init npop npar bl bw g h =
     (case random_mat npop npar g of
        Inl err \<Rightarrow> Inl err
      | Inr (u, g') \<Rightarrow>
          (case new_mat (madd bl (mmul u bw)) h of
             (a, h1) \<Rightarrow>
               (case new_vec (replicate (nat npop) 0) h1 of
                  (b, h2) \<Rightarrow>
                    Inr (\<lparr>population = a, fitness = b, pop = a, fit = b, minidx = None\<rparr>,
                         g', h2))))"

text \<open>
  What a getter returns: a number, or an array of one, two or three axes.  Indexing a
  numpy array with \<^verbatim>\<open>None\<close> raises nothing: \<^verbatim>\<open>None\<close> is \<^verbatim>\<open>numpy.newaxis\<close>,
  and the result is the whole array under one more leading axis of length 1.
\<close>

datatype ndvalue =
  Scalar real
  | Array1 "real list"
  | Array2 "real list list"
  | Array3 "real list list list"

definition get_fitness :: "DiffEvolResult \<Rightarrow> heap \<Rightarrow> error + ndvalue" where
  "get_fitness r h =
     (case minidx r of
        None \<Rightarrow> Inr (Array2 [vecs h (fitness r)])
      | Some k \<Rightarrow>
          (if k < length (vecs h (fitness r)) then Inr (Scalar (vecs h (fitness r) ! k))
           else Inl IndexError))"

definition get_best_fit :: "DiffEvolResult \<Rightarrow> heap \<Rightarrow> error + ndvalue" where
  "get_best_fit r h =
     (case minidx r of
        None \<Rightarrow> Inr (Array3 [mats h (population r)])
      | Some k \<Rightarrow>
          (if k < length (mats h (population r)) then Inr (Array1 (mats h (population r) ! k))
           else Inl IndexError))"

subsection \<open>DiffEvol\<close>

record DiffEvol =
  minfun :: "real list \<Rightarrow> real"
  bounds :: "(real \<times> real) list"
  n_gen :: int
  n_pop :: int
  n_parm :: nat
  bl :: "real list list"
  bw :: "real list list"
  seed :: int
  F :: real
  C :: real
  verbose :: bool
  result :: DiffEvolResult

text \<open>
  \<^verbatim>\<open>DiffEvol.__init__(fun, bounds, npop, ngen, F, C, seed, verbose)\<close>, lines 41 to 55.
  \<open>bounds\<close> is the \<open>[npar, 2]\<close> array of the docstring, one \<open>(lower, upper)\<close> pair
  per parameter.  The arguments are stored as they come; the only exception is numpy's
  own: for a negative number of repetitions in \<^verbatim>\<open>tile\<close>, and for a seed that
  \<^verbatim>\<open>numpy.random.seed\<close> rejects.
\<close>

definition DiffEvol_init ::
  "(int \<Rightarrow> error + rng) \<Rightarrow> (real list \<Rightarrow> real) \<Rightarrow> (real \<times> real) list \<Rightarrow> int \<Rightarrow> int \<Rightarrow> real \<Rightarrow> real
     \<Rightarrow> int \<Rightarrow> bool \<Rightarrow> rng \<Rightarrow> heap \<Rightarrow> error + DiffEvol \<times> rng \<times> heap" where
  "DiffEvol_init np_seed f bnds npop ngen f_amp c_prob sd verb g h =
     (case tile (map fst bnds) npop of
        Inl err \<Rightarrow> Inl err
      | Inr lo \<Rightarrow>
          (case tile (map (\<lambda>b. snd b - fst b) bnds) npop of
             Inl err \<Rightarrow> Inl err
           | Inr wd \<Rightarrow>
               (case np_seed sd of
                  Inl err \<Rightarrow> Inl err
                | Inr g0 \<Rightarrow>
                    (case DiffEvolResult_init npop (length bnds) lo wd g0 h of
                       Inl err \<Rightarrow> Inl err
                     | Inr (r, g', h') \<Rightarrow>
                         Inr (\<lparr>minfun = f, bounds = bnds, n_gen = ngen, n_pop = npop,
                               n_parm = length bnds, bl = lo, bw = wd, seed = sd,
                               F = f_amp, C = c_prob, verbose = verb, result = r\<rparr>,
                              g', h')))))"

text \<open>
  \<^verbatim>\<open>DiffEvol.__call__\<close>, lines 61 to 97.  The loop
  \<^verbatim>\<open>while rejected(x): x = randint(n)\<close> occurs three times (lines 70 to 75), each
  time with another test; it may redraw forever.
\<close>

partial_function (option) redraw ::
  "(nat \<Rightarrow> bool) \<Rightarrow> int \<Rightarrow> nat \<Rightarrow> rng \<Rightarrow> (error + nat \<times> rng) option" where
  "redraw rejected n x g =
     (if rejected x
      then (case randint n g of
              Inl err \<Rightarrow> Some (Inl err)
            | Inr (y, g') \<Rightarrow> redraw rejected n y g')
      else Some (Inr (x, g)))"

text \<open>Lines 69 to 75: \<^verbatim>\<open>t[:] = i\<close> and the three loops that fill \<open>t\<close>.\<close>

definition select_donors ::
  "int \<Rightarrow> nat \<Rightarrow> rng \<Rightarrow> (error + (nat \<times> nat \<times> nat) \<times> rng) option" where
  "select_donors n i g =
     and_then (redraw (\<lambda>x. x = i) n i g) (\<lambda>(t0, g0).
     and_then (redraw (\<lambda>x. x = i \<or> x = t0) n i g0) (\<lambda>(t1, g1).
     and_then (redraw (\<lambda>x. x = i \<or> x = t0 \<or> x = t1) n i g1) (\<lambda>(t2, g2).
     Some (Inr ((t0, t1, t2), g2)))))"

text \<open>Line 77: \<^verbatim>\<open>v = r.pop[t[0],:] + self.F * (r.pop[t[1],:] - r.pop[t[2],:])\<close>.\<close>

definition mutant ::
  "DiffEvol \<Rightarrow> DiffEvolResult \<Rightarrow> nat \<times> nat \<times> nat \<Rightarrow> heap \<Rightarrow> error + real list" where
  "mutant e r t h =
     (case t of (t0, t1, t2) \<Rightarrow>
        (case get_row h (pop r) t0 of
           Inl err \<Rightarrow> Inl err
         | Inr x0 \<Rightarrow>
             (case get_row h (pop r) t1 of
                Inl err \<Rightarrow> Inl err
              | Inr x1 \<Rightarrow>
                  (case get_row h (pop r) t2 of
                     Inl err \<Rightarrow> Inl err
                   | Inr x2 \<Rightarrow> Inr (vadd x0 (vscale (F e) (vsub x1 x2)))))))"

text \<open>Lines 80 to 85: the crossover mask, \<^verbatim>\<open>np.where\<close>, and the forced crossing.\<close>

definition crossover ::
  "DiffEvol \<Rightarrow> DiffEvolResult \<Rightarrow> nat \<Rightarrow> real list \<Rightarrow> rng \<Rightarrow> heap
     \<Rightarrow> error + real list \<times> rng" where
  "crossover e r i v g h =
     (case random_vec (n_parm e) g of
        (draws, g1) \<Rightarrow>
          (let mask = map (\<lambda>d. d \<le> C e) draws
           in case get_row h (pop r) i of
                Inl err \<Rightarrow> Inl err
              | Inr x \<Rightarrow>
                  (let u = np_where mask v x
                   in case randint (int (n_parm e)) g1 of
                        Inl err \<Rightarrow> Inl err
                      | Inr (ri, g2) \<Rightarrow>
                          (if ri < length v \<and> ri < length u
                           then Inr (u[ri := v ! ri], g2)
                           else Inl IndexError))))"

text \<open>Lines 87 to 91: the trial is evaluated and replaces slot \<open>i\<close> if its objective
  value is strictly lower.  (The docstring of \<^verbatim>\<open>__call__\<close> speaks of maximising;
  the comparison is \<^verbatim>\<open>ufit < r.fitness[i]\<close>, which minimises.)\<close>

definition selection ::
  "DiffEvol \<Rightarrow> DiffEvolResult \<Rightarrow> nat \<Rightarrow> real list \<Rightarrow> heap \<Rightarrow> error + heap" where
  "selection e r i u h =
     (let ufit = minfun e u
      in case get_item h (fitness r) i of
           Inl err \<Rightarrow> Inl err
         | Inr fi \<Rightarrow>
             (if ufit < fi
              then (case set_row h (pop r) i u of
                      Inl err \<Rightarrow> Inl err
                    | Inr h1 \<Rightarrow> set_item h1 (fit r) i ufit)
              else Inr h))"

text \<open>Lines 69 to 91: the body of the inner loop, for the target index \<open>i\<close>.\<close>

definition step ::
  "DiffEvol \<Rightarrow> DiffEvolResult \<Rightarrow> nat \<Rightarrow> rng \<Rightarrow> heap \<Rightarrow> (error + rng \<times> heap) option" where
  "step e r i g h =
     and_then (select_donors (n_pop e) i g) (\<lambda>(t, g1).
       Some (case mutant e r t h of
               Inl err \<Rightarrow> Inl err
             | Inr v \<Rightarrow>
                 (case crossover e r i v g1 h of
                    Inl err \<Rightarrow> Inl err
                  | Inr (u, g2) \<Rightarrow>
                      (case selection e r i u h of
                         Inl err \<Rightarrow> Inl err
                       | Inr h' \<Rightarrow> Inr (g2, h')))))"

text \<open>Lines 64 and 65: \<^verbatim>\<open>for i in xrange(self.n_pop): r.fit[i] = self.minfun(r.pop[i,:])\<close>.
  The loops over \<^verbatim>\<open>xrange\<close> take the list of indices they run through.\<close>

fun evaluate_all :: "DiffEvol \<Rightarrow> DiffEvolResult \<Rightarrow> nat list \<Rightarrow> heap \<Rightarrow> error + heap" where
  "evaluate_all e r [] h = Inr h"
| "evaluate_all e r (i # is) h =
     (case get_row h (pop r) i of
        Inl err \<Rightarrow> Inl err
      | Inr x \<Rightarrow>
          (case set_item h (fit r) i (minfun e x) of
             Inl err \<Rightarrow> Inl err
           | Inr h' \<Rightarrow> evaluate_all e r is h'))"

text \<open>Line 68: \<^verbatim>\<open>for i in xrange(self.n_pop)\<close>, one step after the other on the one
  store.\<close>

fun sweep ::
  "DiffEvol \<Rightarrow> DiffEvolResult \<Rightarrow> nat list \<Rightarrow> rng \<Rightarrow> heap \<Rightarrow> (error + rng \<times> heap) option" where
  "sweep e r [] g h = Some (Inr (g, h))"
| "sweep e r (i # is) g h = and_then (step e r i g h) (\<lambda>(g', h'). sweep e r is g' h')"

text \<open>
  Lines 93 and 94: the progress line.  Its arguments are computed before anything is
  written, and the first of them is \<^verbatim>\<open>self.rank\<close>, an attribute that
  \<^verbatim>\<open>DiffEvol\<close> never sets: with \<^verbatim>\<open>verbose\<close> the statement raises
  AttributeError.
\<close>

definition progress :: "DiffEvol \<Rightarrow> error + unit" where
  "progress e = (if verbose e then Inl AttributeError else Inr ())"

text \<open>Line 67: \<^verbatim>\<open>for j in xrange(self.n_gen)\<close>.\<close>

fun generations ::
  "DiffEvol \<Rightarrow> DiffEvolResult \<Rightarrow> nat list \<Rightarrow> rng \<Rightarrow> heap \<Rightarrow> (error + rng \<times> heap) option" where
  "generations e r [] g h = Some (Inr (g, h))"
| "generations e r (j # js) g h =
     and_then (sweep e r [0..<nat (n_pop e)] g h) (\<lambda>(g', h').
       case progress e of
         Inl err \<Rightarrow> Some (Inl err)
       | Inr _ \<Rightarrow> generations e r js g' h')"

definition DiffEvol_call ::
  "DiffEvol \<Rightarrow> rng \<Rightarrow> heap \<Rightarrow> (error + DiffEvolResult \<times> rng \<times> heap) option" where
  "DiffEvol_call e g h =
     (case evaluate_all e (result e) [0..<nat (n_pop e)] h of
        Inl err \<Rightarrow> Some (Inl err)
      | Inr h0 \<Rightarrow>
          and_then (generations e (result e) [0..<nat (n_gen e)] g h0) (\<lambda>(g', h').
            Some (case argmin (vecs h' (fitness (result e))) of
                    Inl err \<Rightarrow> Inl err
                  | Inr k \<Rightarrow> Inr ((result e)\<lparr>minidx := Some k\<rparr>, g', h'))))"

subsection \<open>Observations and concrete inputs\<close>

text \<open>What a caller sees of the result of a freshly constructed engine: what its two
  getters return.\<close>

definition fresh_get_fitness :: "error + DiffEvol \<times> rng \<times> heap \<Rightarrow> error + ndvalue" where
  "fresh_get_fitness c =
     (case c of Inl err \<Rightarrow> Inl err | Inr (e, g, h) \<Rightarrow> get_fitness (result e) h)"

definition fresh_get_best_fit :: "error + DiffEvol \<times> rng \<times> heap \<Rightarrow> error + ndvalue" where
  "fresh_get_best_fit c =
     (case c of Inl err \<Rightarrow> Inl err | Inr (e, g, h) \<Rightarrow> get_best_fit (result e) h)"

text \<open>Concrete inputs: the sum of squares and the squared distance from 3 as
  objectives, a seeding function that rejects negative seeds and otherwise sets up the
  stream of raw draws that counts up from the seed, a generator that only ever draws 0,
  and a store with nothing in it.\<close>

definition sphere :: "real list \<Rightarrow> real" where
  "sphere x = sum_list (map (\<lambda>v. v * v) x)"

definition quadratic :: "real list \<Rightarrow> real" where
  "quadratic x = sum_list (map (\<lambda>v. (v - 3) * (v - 3)) x)"

definition counting :: "nat \<Rightarrow> rng" where
  "counting a k = a + k"

definition counting_seed :: "int \<Rightarrow> error + rng" where
  "counting_seed s = (if s < 0 then Inl ValueError else Inr (counting (nat s)))"

definition zero_rng :: rng where
  "zero_rng k = 0"

definition empty_heap :: heap where
  "empty_heap = \<lparr>mats = (\<lambda>a. []), vecs = (\<lambda>a. []), brk = 0\<rparr>"

subsection \<open>Construct and run\<close>

text \<open>\<^verbatim>\<open>DiffEvol(fun, bounds, npop, ngen, F, C, seed, verbose)()\<close>: one execution, from
  whatever state the generator and the store are in, and what it leaves of the final
  population, the final fitness vector and \<open>minidx\<close>.\<close>

definition construct_and_run ::
  "(int \<Rightarrow> error + rng) \<Rightarrow> (real list \<Rightarrow> real) \<Rightarrow> (real \<times> real) list \<Rightarrow> int \<Rightarrow> int \<Rightarrow> real \<Rightarrow> real
     \<Rightarrow> int \<Rightarrow> bool \<Rightarrow> rng \<Rightarrow> heap \<Rightarrow> (error + DiffEvolResult \<times> rng \<times> heap) option" where
  "construct_and_run np_seed f bnds npop ngen f_amp c_prob sd verb g h =
     (case DiffEvol_init np_seed f bnds npop ngen f_amp c_prob sd verb g h of
        Inl err \<Rightarrow> Some (Inl err)
      | Inr (e, g', h') \<Rightarrow> DiffEvol_call e g' h')"

definition final_arrays ::
  "(error + DiffEvolResult \<times> rng \<times> heap) option
     \<Rightarrow> (error + real list list \<times> real list \<times> nat option) option" where
  "final_arrays out =
     (case out of
        None \<Rightarrow> None
      | Some (Inl err) \<Rightarrow> Some (Inl err)
      | Some (Inr (r, g, h)) \<Rightarrow>
          Some (Inr (mats h (population r), vecs h (fitness r), minidx r)))"

subsection \<open>Well-formed stores and fair streams\<close>

text \<open>
  The state that \<^verbatim>\<open>__init__\<close> sets up and \<^verbatim>\<open>__call__\<close> keeps: the two
  names of each array are aliases, the population has \<open>n_pop\<close> rows of \<open>n_parm\<close>
  entries, the fitness vector has \<open>n_pop\<close> entries.
\<close>

definition aliased :: "DiffEvolResult \<Rightarrow> bool" where
  "aliased r = (pop r = population r \<and> fit r = fitness r)"

definition well_formed :: "DiffEvol \<Rightarrow> DiffEvolResult \<Rightarrow> heap \<Rightarrow> bool" where
  "well_formed e r h =
     (aliased r
      \<and> length (mats h (pop r)) = nat (n_pop e)
      \<and> list_all (\<lambda>row. length row = n_parm e) (mats h (pop r))
      \<and> length (vecs h (fit r)) = nat (n_pop e))"

text \<open>
  A stream of raw draws is fair for \<open>n\<close> if every index below \<open>n\<close> comes up again
  after every position.  Independent uniform draws are fair with probability 1; a
  stream that repeats one index forever is not.
\<close>

definition fair :: "nat \<Rightarrow> rng \<Rightarrow> bool" where
  "fair n g = (\<forall>v<n. \<forall>k. \<exists>m. g (k + m) mod n = v)"

text \<open>
  Slot \<open>i\<close> between two stores: either its row and its fitness are both as they
  were, or its fitness is strictly lower and is the objective value of its row.
\<close>

definition slot_kept_or_improved ::
  "DiffEvol \<Rightarrow> DiffEvolResult \<Rightarrow> heap \<Rightarrow> heap \<Rightarrow> nat \<Rightarrow> bool" where
  "slot_kept_or_improved e r h h' i =
     ((mats h' (population r) ! i = mats h (population r) ! i
         \<and> vecs h' (fitness r) ! i = vecs h (fitness r) ! i)
      \<or> (vecs h' (fitness r) ! i < vecs h (fitness r) ! i
         \<and> vecs h' (fitness r) ! i = minfun e (mats h' (population r) ! i)))"

text \<open>Two stores hold the same arrays for two result objects; two outcomes of a loop
  agree up to where the arrays are stored.\<close>

definition same_arrays :: "DiffEvolResult \<Rightarrow> heap \<Rightarrow> DiffEvolResult \<Rightarrow> heap \<Rightarrow> bool" where
  "same_arrays r1 h1 r2 h2 =
     (aliased r1 \<and> aliased r2
      \<and> mats h1 (pop r1) = mats h2 (pop r2) \<and> vecs h1 (fit r1) = vecs h2 (fit r2))"

definition same_outcome ::
  "DiffEvolResult \<Rightarrow> DiffEvolResult \<Rightarrow> (error + rng \<times> heap) option
     \<Rightarrow> (error + rng \<times> heap) option \<Rightarrow> bool" where
  "same_outcome r1 r2 m1 m2 =
     (case m1 of
        None \<Rightarrow> m2 = None
      | Some (Inl err) \<Rightarrow> m2 = Some (Inl err)
      | Some (Inr (g1, h1)) \<Rightarrow>
          (case m2 of
             Some (Inr (g2, h2)) \<Rightarrow> g1 = g2 \<and> same_arrays r1 h1 r2 h2
           | _ \<Rightarrow> False))"

section \<open>Construction\<close>

lemma DiffEvol_init_Inr:
  assumes "0 \<le> npop" and "np_seed sd = Inr s"
  shows "DiffEvol_init np_seed f bnds npop ngen fa cp sd vb g h =
     Inr (\<lparr>minfun = f, bounds = bnds, n_gen = ngen, n_pop = npop, n_parm = length bnds,
           bl = replicate (nat npop) (map fst bnds),
           bw = replicate (nat npop) (map (\<lambda>b. snd b - fst b) bnds),
           seed = sd, F = fa, C = cp, verbose = vb,
           result = \<lparr>population = brk h, fitness = brk h + 1, pop = brk h, fit = brk h + 1,
                     minidx = None\<rparr>\<rparr>,
          advance (nat npop * length bnds) s,
          h\<lparr>mats := (mats h)(brk h :=
                madd (replicate (nat npop) (map fst bnds))
                  (mmul (map (\<lambda>i. map (\<lambda>j. uniform (s (i * length bnds + j)))
                                  [0..<length bnds]) [0..<nat npop])
                     (replicate (nat npop) (map (\<lambda>b. snd b - fst b) bnds)))),
            vecs := (vecs h)(brk h + 1 := replicate (nat npop) 0),
            brk := brk h + 2\<rparr>)"
  using assms
  by (simp add: DiffEvol_init_def DiffEvolResult_init_def tile_def random_mat_def
      new_mat_def new_vec_def)

lemma DiffEvol_init_returns:
  "0 \<le> npop \<Longrightarrow> np_seed sd = Inr s \<Longrightarrow>
     \<exists>e g' h'. DiffEvol_init np_seed f bnds npop ngen fa cp sd vb g h = Inr (e, g', h')"
  by (simp add: DiffEvol_init_Inr [where np_seed = np_seed and sd = sd])

lemma DiffEvol_init_accepted:
  assumes "DiffEvol_init np_seed f bnds npop ngen fa cp sd vb g h = Inr c"
  obtains s where "0 \<le> npop" and "np_seed sd = Inr s"
  using assms
  by (cases "np_seed sd") (auto simp: DiffEvol_init_def tile_def split: if_splits)

lemma counting_seed_0: "counting_seed 0 = Inr (counting 0)"
  by (simp add: counting_seed_def)

lemmas DiffEvol_init_counting =
  DiffEvol_init_Inr [where np_seed = counting_seed and sd = 0, OF _ counting_seed_0]

lemmas DiffEvol_init_counting_returns =
  DiffEvol_init_returns [where np_seed = counting_seed and sd = 0, OF _ counting_seed_0]

lemma population_shape:
  "length (madd (replicate n (map fst bnds))
           (mmul (map (\<lambda>i. map (\<lambda>j. uniform (s (i * length bnds + j))) [0..<length bnds])
                    [0..<n])
              (replicate n (map (\<lambda>b. snd b - fst b) bnds)))) = n"
  "i < n \<Longrightarrow> length (madd (replicate n (map fst bnds))
           (mmul (map (\<lambda>i. map (\<lambda>j. uniform (s (i * length bnds + j))) [0..<length bnds])
                    [0..<n])
              (replicate n (map (\<lambda>b. snd b - fst b) bnds))) ! i) = length bnds"
  by (simp_all add: madd_def mmul_def vadd_def vmul_def)

text \<open>
  C1 (as stated, refuted).  The constructor has no validation: with a bound pair whose
  lower end is above its upper end, three individuals, \<open>F = 0\<close>, \<open>C = 2\<close> and no
  generation at all, it raises nothing and returns an engine.
\<close>

theorem construction_accepts_invalid_arguments:
  "\<not> isl (DiffEvol_init counting_seed sphere [(1, 0)] 3 0 0 2 0 True zero_rng empty_heap)"
  by (simp add: DiffEvol_init_counting)

text \<open>
  C1 (amended).  Construction checks none of the bounds, the population size against 4,
  \<open>F\<close>, \<open>C\<close> or the number of generations: for every population size that is not
  negative (and a seed that numpy takes) it returns an engine that holds the arguments
  as given, with a population of \<open>n_pop\<close> rows, a zero-filled fitness vector and
  \<open>minidx\<close> unset.  The objective is not evaluated: the store and the generator after
  construction are the same for every objective function.
\<close>

theorem construction_stores_arguments_unchecked:
  assumes "0 \<le> npop" and "np_seed sd = Inr s"
  shows "\<exists>e g' h'. DiffEvol_init np_seed f bnds npop ngen fa cp sd vb g h = Inr (e, g', h')
      \<and> bounds e = bnds \<and> n_pop e = npop \<and> n_gen e = ngen \<and> F e = fa \<and> C e = cp
      \<and> minidx (result e) = None
      \<and> vecs h' (fitness (result e)) = replicate (nat npop) 0
      \<and> length (mats h' (population (result e))) = nat npop
      \<and> (\<forall>f'. DiffEvol_init np_seed f' bnds npop ngen fa cp sd vb g h
                = Inr (e\<lparr>minfun := f'\<rparr>, g', h'))"
  by (simp add: DiffEvol_init_Inr [where np_seed = np_seed and sd = sd, OF assms]
      population_shape)

theorem construction_stores_arguments_unchecked_witness:
  "(0::int) \<le> 3 \<and> counting_seed 0 = Inr (counting 0) \<and>
   (\<exists>e g' h'.
      DiffEvol_init counting_seed sphere [(1, 0)] 3 0 0 2 0 True zero_rng empty_heap = Inr (e, g', h')
      \<and> bounds e = [(1, 0)] \<and> n_pop e = 3 \<and> n_gen e = 0 \<and> F e = 0 \<and> C e = 2
      \<and> minidx (result e) = None
      \<and> vecs h' (fitness (result e)) = replicate (nat 3) 0
      \<and> length (mats h' (population (result e))) = nat 3
      \<and> (\<forall>f'. DiffEvol_init counting_seed f' [(1, 0)] 3 0 0 2 0 True zero_rng empty_heap
                = Inr (e\<lparr>minfun := f'\<rparr>, g', h')))"
  using construction_stores_arguments_unchecked
    [where np_seed = counting_seed and sd = 0, OF _ counting_seed_0,
      of 3 sphere "[(1, 0)]" 0 0 2 True zero_rng empty_heap]
    counting_seed_0
  by simp

section \<open>The getters\<close>

text \<open>
  C3 (as stated, refuted).  On the result of a freshly constructed engine of four
  individuals \<^verbatim>\<open>get_fitness\<close> raises nothing: \<^verbatim>\<open>self.fitness[None]\<close> is
  the zero-filled fitness vector under a new leading axis.
\<close>

theorem get_fitness_before_run_returns:
  "fresh_get_fitness
     (DiffEvol_init counting_seed sphere [(-1, 1)] 4 10 (1/2) (1/2) 0 True zero_rng empty_heap)
     = Inr (Array2 [[0, 0, 0, 0]])"
  by (simp add: fresh_get_fitness_def DiffEvol_init_counting get_fitness_def
      eval_nat_numeral)

text \<open>
  C3 (amended).  On the result of a freshly constructed, never-run engine \<open>minidx\<close>
  is unset and neither getter fails: \<^verbatim>\<open>get_fitness\<close> returns the zero-filled
  fitness vector and \<^verbatim>\<open>get_best_fit\<close> the whole population, each under one
  more leading axis of length 1.
\<close>

theorem getters_before_run_return_whole_arrays:
  assumes "DiffEvol_init np_seed f bnds npop ngen fa cp sd vb g h = Inr (e, g', h')"
  shows "minidx (result e) = None
       \<and> get_fitness (result e) h' = Inr (Array2 [replicate (nat npop) 0])
       \<and> get_best_fit (result e) h' = Inr (Array3 [mats h' (population (result e))])"
proof -
  from assms obtain s where "0 \<le> npop" and "np_seed sd = Inr s"
    by (rule DiffEvol_init_accepted)
  from DiffEvol_init_Inr [where np_seed = np_seed and sd = sd, OF this,
      of f bnds ngen fa cp vb g h] assms
  show ?thesis
    by (auto simp: get_fitness_def get_best_fit_def)
qed

theorem getters_before_run_return_whole_arrays_witness:
  "\<exists>e g' h'.
     DiffEvol_init counting_seed sphere [(-1, 1)] 4 10 (1/2) (1/2) 0 True zero_rng empty_heap
       = Inr (e, g', h')
     \<and> minidx (result e) = None
     \<and> get_fitness (result e) h' = Inr (Array2 [[0, 0, 0, 0]])
     \<and> get_best_fit (result e) h' = Inr (Array3 [mats h' (population (result e))])"
proof -
  obtain e g' h' where
    c: "DiffEvol_init counting_seed sphere [(-1, 1)] 4 10 (1/2) (1/2) 0 True zero_rng empty_heap
          = Inr (e, g', h')"
    using DiffEvol_init_counting_returns [of 4] by force
  from getters_before_run_return_whole_arrays [OF c] c show ?thesis
    by (simp add: eval_nat_numeral)
qed

section \<open>Sequencing\<close>

text \<open>Small lists by their elements, for the evaluation of concrete runs.\<close>

lemma replicate4: "replicate 4 x = [x, x, x, x]"
  by (simp add: eval_nat_numeral)

lemma upt4: "[0..<4] = [0, 1, 2, 3]"
  by (simp add: upt_rec)

lemma update2: "(a # b # c # xs)[2 := v] = a # b # v # xs"
  by (simp add: numeral_2_eq_2)

lemma update3: "(a # b # c # d # xs)[3 := v] = a # b # c # v # xs"
  by (simp add: numeral_3_eq_3)

lemma and_then_simps:
  "and_then None k = None"
  "and_then (Some (Inl err)) k = Some (Inl err)"
  "and_then (Some (Inr x)) k = k x"
  by (simp_all add: and_then_def)

lemma and_then_Some_Inr:
  "and_then m k = Some (Inr y) \<longleftrightarrow> (\<exists>x. m = Some (Inr x) \<and> k x = Some (Inr y))"
  by (auto simp: and_then_def split: option.splits sum.splits)

lemma and_then_assoc:
  "and_then (and_then m f) k = and_then m (\<lambda>x. and_then (f x) k)"
  by (simp add: and_then_def split: option.splits sum.splits)

section \<open>Donor selection\<close>

text \<open>The loop accepts a value at once, and otherwise goes on with the next draw.\<close>

lemma redraw_accept: "\<not> rejected x \<Longrightarrow> redraw rejected n x g = Some (Inr (x, g))"
  by (subst redraw.simps) simp

lemma redraw_reject:
  "rejected x \<Longrightarrow> redraw rejected n x g =
     (case randint n g of Inl err \<Rightarrow> Some (Inl err) | Inr (y, g') \<Rightarrow> redraw rejected n y g')"
  by (subst redraw.simps) simp

text \<open>If the loop returns, it returns a value that passes the test: the one it started
  with, or an index below \<open>n\<close> that it drew.  It raises only if \<open>n \<le> 0\<close>.\<close>

lemma redraw_induct [consumes 1, case_names step]:
  assumes ret: "redraw rejected n x g = Some res"
    and step: "\<And>f rejected n x g res.
       (\<And>rejected n x g res. f rejected n x g = Some res \<Longrightarrow> P rejected n x g res) \<Longrightarrow>
       (if rejected x
        then (case randint n g of Inl err \<Rightarrow> Some (Inl err) | Inr (y, g') \<Rightarrow> f rejected n y g')
        else Some (Inr (x, g))) = Some res \<Longrightarrow> P rejected n x g res"
  shows "P rejected n x g res"
proof -
  have "(case (((rejected, n), x), g) of
          (a, b) \<Rightarrow> (case a of (a, b) \<Rightarrow> (case a of (a, b) \<Rightarrow> P a b) b) b) res"
  proof (rule redraw.raw_induct [where P = P])
    fix f rejected n x g res
    assume "\<And>rejected n x g res. f rejected n x g = Some res \<Longrightarrow> P rejected n x g res"
      and "(if rejected x
        then (case randint n g of Inl err \<Rightarrow> Some (Inl err) | Inr (y, g') \<Rightarrow> f rejected n y g')
        else Some (Inr (x, g))) = Some res"
    then show "P rejected n x g res" by (rule step)
  next
    show "(case (((rejected, n), x), g) of
            (a, b) \<Rightarrow> (case a of (a, b) \<Rightarrow> (case a of (a, b) \<Rightarrow> redraw a b) b) b) = Some res"
      using ret by simp
  qed
  then show ?thesis by simp
qed

lemma redraw_returns:
  assumes ret: "redraw rejected n x g = Some res"
  shows "case res of Inl err \<Rightarrow> n \<le> 0 | Inr (y, g') \<Rightarrow> \<not> rejected y \<and> (y = x \<or> y < nat n)"
  using ret
proof (induction rule: redraw_induct)
  case (step f rejected n x g res)
  show ?case
  proof (cases "rejected x")
    case False
    with step(2) show ?thesis by auto
  next
    case True
    show ?thesis
    proof (cases "n \<le> 0")
      case True
      with \<open>rejected x\<close> step(2) show ?thesis by (auto simp: randint_def)
    next
      case False
      with \<open>rejected x\<close> step(2) have "f rejected n (g 0 mod nat n) (advance 1 g) = Some res"
        by (simp add: randint_def)
      from step(1) [OF this] False show ?thesis
        by (auto split: sum.splits)
    qed
  qed
qed

text \<open>On a stream that holds an acceptable draw somewhere, the loop stops.\<close>

lemma fair_advance: "fair n g \<Longrightarrow> fair n (advance k g)"
  unfolding fair_def advance_def
proof (intro allI impI)
  fix v j
  assume a: "\<forall>v<n. \<forall>k. \<exists>m. g (k + m) mod n = v" and "v < n"
  then obtain m where "g ((j + k) + m) mod n = v" by blast
  then have "g (j + m + k) mod n = v" by (simp add: ac_simps)
  then show "\<exists>m. g (j + m + k) mod n = v" ..
qed

lemma redraw_stops:
  assumes "0 < n" and "\<not> rejected (g m mod nat n)"
  shows "\<exists>y k. redraw rejected n x g = Some (Inr (y, advance k g))"
  using assms(2)
proof (induction m arbitrary: x g)
  case 0
  show ?case
  proof (cases "rejected x")
    case False
    then have "redraw rejected n x g = Some (Inr (x, advance 0 g))"
      by (simp add: redraw_accept advance_def)
    then show ?thesis by blast
  next
    case True
    with 0 assms(1) have "redraw rejected n x g = Some (Inr (g 0 mod nat n, advance 1 g))"
      by (simp add: redraw_reject randint_def redraw_accept)
    then show ?thesis by blast
  qed
next
  case (Suc m)
  show ?case
  proof (cases "rejected x")
    case False
    then have "redraw rejected n x g = Some (Inr (x, advance 0 g))"
      by (simp add: redraw_accept advance_def)
    then show ?thesis by blast
  next
    case True
    from Suc.prems have "\<not> rejected (advance 1 g m mod nat n)"
      by (simp add: advance_def)
    from Suc.IH [where x = "g 0 mod nat n" and g = "advance 1 g", OF this]
    obtain y k where
      "redraw rejected n (g 0 mod nat n) (advance 1 g) = Some (Inr (y, advance k (advance 1 g)))"
      by blast
    with True assms(1) have "redraw rejected n x g = Some (Inr (y, advance (k + 1) g))"
      by (simp add: redraw_reject randint_def advance_def ac_simps)
    then show ?thesis by blast
  qed
qed

lemma redraw_fair:
  assumes "0 < n" and "fair (nat n) g" and "v < nat n" and "\<not> rejected v"
  shows "\<exists>y g'. redraw rejected n x g = Some (Inr (y, g')) \<and> fair (nat n) g'
           \<and> \<not> rejected y \<and> (y = x \<or> y < nat n)"
proof -
  from assms(2,3) obtain m where "g (0 + m) mod nat n = v"
    unfolding fair_def by blast
  with assms(4) have "\<not> rejected (g m mod nat n)" by simp
  from redraw_stops [where rejected = rejected and g = g and m = m and x = x, OF assms(1) this]
  obtain y k where r: "redraw rejected n x g = Some (Inr (y, advance k g))" by blast
  from redraw_returns [OF r] have "\<not> rejected y \<and> (y = x \<or> y < nat n)" by simp
  with r fair_advance [OF assms(2), of k] show ?thesis by blast
qed

lemma fresh_index:
  assumes "4 \<le> n"
  shows "\<exists>v<n. v \<noteq> (i::nat) \<and> v \<noteq> a \<and> v \<noteq> b"
proof -
  have "card ({..<n} - {i, a, b}) \<ge> card {..<n} - card {i, a, b}"
    by (rule diff_card_le_card_Diff) simp
  moreover have "card {i, a, b} \<le> 3"
    by (simp add: card_insert_if)
  ultimately have "0 < card ({..<n} - {i, a, b})"
    using assms by simp
  then have "{..<n} - {i, a, b} \<noteq> {}" by (metis card.empty less_irrefl)
  then show ?thesis by auto
qed

lemma few_indices:
  assumes "distinct [i, a, b, c :: nat]" and "i < n" "a < n" "b < n" "c < n"
  shows "4 \<le> n"
proof -
  have "{i, a, b, c} \<subseteq> {..<n}" using assms by simp
  then have "card {i, a, b, c} \<le> card {..<n}" by (intro card_mono) simp_all
  moreover have "card {i, a, b, c} = 4" using assms(1) by simp
  ultimately show ?thesis by simp
qed

lemma select_donors_returns:
  assumes "select_donors n i g = Some res" and "i < nat n"
  shows "\<exists>a b c g'. res = Inr ((a, b, c), g') \<and> distinct [i, a, b, c]
           \<and> a < nat n \<and> b < nat n \<and> c < nat n"
proof -
  have n: "\<not> n \<le> 0" using assms(2) by simp
  from assms(1) obtain r0 where r0: "redraw (\<lambda>x. x = i) n i g = Some r0"
    by (auto simp: select_donors_def and_then_def split: option.splits)
  from redraw_returns [OF r0] n obtain a g0 where
    a: "r0 = Inr (a, g0)" "a \<noteq> i" "a < nat n"
    by (auto split: sum.splits)
  from assms(1) r0 a obtain r1 where r1: "redraw (\<lambda>x. x = i \<or> x = a) n i g0 = Some r1"
    by (auto simp: select_donors_def and_then_def split: option.splits)
  from redraw_returns [OF r1] n obtain b g1 where
    b: "r1 = Inr (b, g1)" "b \<noteq> i" "b \<noteq> a" "b < nat n"
    by (auto split: sum.splits)
  from assms(1) r0 a r1 b obtain r2 where
    r2: "redraw (\<lambda>x. x = i \<or> x = a \<or> x = b) n i g1 = Some r2"
    by (auto simp: select_donors_def and_then_def split: option.splits)
  from redraw_returns [OF r2] n obtain c g2 where
    c: "r2 = Inr (c, g2)" "c \<noteq> i" "c \<noteq> a" "c \<noteq> b" "c < nat n"
    by (auto split: sum.splits)
  from assms(1) r0 a r1 b r2 c have "res = Inr ((a, b, c), g2)"
    by (simp add: select_donors_def and_then_def)
  with a b c show ?thesis by auto
qed

lemma select_donors_fair:
  assumes "4 \<le> n" and "fair (nat n) g"
  shows "\<exists>t g'. select_donors n i g = Some (Inr (t, g')) \<and> fair (nat n) g'"
proof -
  have n: "0 < n" "4 \<le> nat n" using assms(1) by simp_all
  from fresh_index [OF n(2), of i i i] obtain v0 where "v0 < nat n" "v0 \<noteq> i" by blast
  from redraw_fair [OF n(1) assms(2) this(1), of "\<lambda>x. x = i" i] this(2)
  obtain a g0 where a: "redraw (\<lambda>x. x = i) n i g = Some (Inr (a, g0))" "fair (nat n) g0"
    by blast
  from fresh_index [OF n(2), of i a a] obtain v1 where "v1 < nat n" "v1 \<noteq> i" "v1 \<noteq> a"
    by blast
  from redraw_fair [OF n(1) a(2) this(1), of "\<lambda>x. x = i \<or> x = a" i] this(2,3)
  obtain b g1 where
    b: "redraw (\<lambda>x. x = i \<or> x = a) n i g0 = Some (Inr (b, g1))" "fair (nat n) g1"
    by blast
  from fresh_index [OF n(2), of i a b] obtain v2 where
    "v2 < nat n" "v2 \<noteq> i" "v2 \<noteq> a" "v2 \<noteq> b"
    by blast
  from redraw_fair [OF n(1) b(2) this(1), of "\<lambda>x. x = i \<or> x = a \<or> x = b" i] this(2,3,4)
  obtain c g2 where c: "redraw (\<lambda>x. x = i \<or> x = a \<or> x = b) n i g1 = Some (Inr (c, g2))"
    "fair (nat n) g2"
    by blast
  from a b c show ?thesis
    by (simp add: select_donors_def and_then_def)
qed

lemma select_donors_small:
  assumes "n \<le> 3" and "i < nat n"
  shows "select_donors n i g = None"
proof (cases "select_donors n i g")
  case None
  then show ?thesis .
next
  case (Some res)
  from select_donors_returns [OF Some assms(2)] obtain a b c where
    "distinct [i, a, b, c]" "a < nat n" "b < nat n" "c < nat n" by blast
  from few_indices [OF this(1) assms(2) this(2,3,4)] assms(1) show ?thesis by simp
qed

lemma fair_counting: "fair 4 (counting a)"
  unfolding fair_def counting_def
proof (intro allI impI)
  fix v k :: nat
  assume "v < 4"
  then have "(a + (k + (v + 3 * (a + k)))) mod 4 = v" by presburger
  then show "\<exists>m. (a + (k + m)) mod 4 = v" ..
qed

text \<open>
  C9.  For a population of at least four and any target index \<open>i\<close> below \<open>n_pop\<close>:
  whenever the donor selection of lines 69 to 75 returns, on any stream of draws, it
  raises nothing and its three donors and \<open>i\<close> are four pairwise distinct indices
  below \<open>n_pop\<close>; and it does return on every fair stream (every index keeps coming
  up, as it does with probability 1 under uniform draws).
\<close>

theorem donor_selection_distinct:
  assumes "4 \<le> n" and "i < nat n"
  shows "(\<forall>g res. select_donors n i g = Some res \<longrightarrow>
            (\<exists>a b c g'. res = Inr ((a, b, c), g') \<and> distinct [i, a, b, c]
               \<and> a < nat n \<and> b < nat n \<and> c < nat n))
       \<and> (\<forall>g. fair (nat n) g \<longrightarrow> (\<exists>res. select_donors n i g = Some res))"
  using select_donors_returns [OF _ assms(2)] select_donors_fair [OF assms(1)]
  by blast

theorem donor_selection_distinct_witness:
  "fair (nat 4) (counting 0)
   \<and> (\<exists>a b c g'. select_donors 4 0 (counting 0) = Some (Inr ((a, b, c), g'))
        \<and> distinct [0, a, b, c] \<and> a < 4 \<and> b < 4 \<and> c < 4)"
proof -
  have f: "fair (nat 4) (counting 0)" using fair_counting [of 0] by simp
  from donor_selection_distinct [of 4 0] f obtain res where
    r: "select_donors 4 0 (counting 0) = Some res"
    by force
  with donor_selection_distinct [of 4 0] f show ?thesis by force
qed

section \<open>The initial evaluation\<close>

lemma evaluate_all_upt:
  "evaluate_all e r [k..<n] h =
     (if n \<le> k then Inr h
      else if n \<le> length (mats h (pop r)) \<and> n \<le> length (vecs h (fit r))
      then Inr (h\<lparr>vecs := (vecs h)(fit r :=
                  take k (vecs h (fit r))
                  @ map (minfun e) (drop k (take n (mats h (pop r))))
                  @ drop n (vecs h (fit r)))\<rparr>)
      else Inl IndexError)"
proof (induction "n - k" arbitrary: k h)
  case 0
  then show ?case by simp
next
  case (Suc d)
  then have kn: "k < n" and d: "d = n - Suc k" by simp_all
  have up: "[k..<n] = k # [Suc k..<n]" using kn by (rule upt_conv_Cons)
  show ?case
  proof (cases "k < length (mats h (pop r)) \<and> k < length (vecs h (fit r))")
    case False
    with kn show ?thesis
      by (auto simp: up get_row_def set_item_def)
  next
    case True
    let ?fv = "vecs h (fit r)" and ?p = "mats h (pop r)"
    let ?h = "h\<lparr>vecs := (vecs h)(fit r := ?fv[k := minfun e (?p ! k)])\<rparr>"
    have step: "evaluate_all e r [k..<n] h = evaluate_all e r [Suc k..<n] ?h"
      using True by (simp add: up get_row_def set_item_def)
    show ?thesis
    proof (cases "n \<le> Suc k")
      case True
      with kn have n: "n = Suc k" by simp
      have "take k ?fv @ map (minfun e) (drop k (take (Suc k) ?p)) @ drop (Suc k) ?fv
            = ?fv[k := minfun e (?p ! k)]"
        using \<open>k < length ?p \<and> k < length ?fv\<close>
        by (simp add: upd_conv_take_nth_drop take_Suc_conv_app_nth)
      with \<open>k < length ?p \<and> k < length ?fv\<close> show ?thesis
        by (simp add: n get_row_def set_item_def)
    next
      case False
      have l: "take (Suc k) (?fv[k := minfun e (?p ! k)]) = take k ?fv @ [minfun e (?p ! k)]"
        using True by (simp add: take_Suc_conv_app_nth)
      have "k < length (take n ?p)" using True kn by simp
      then have "drop k (take n ?p) = take n ?p ! k # drop (Suc k) (take n ?p)"
        by (rule Cons_nth_drop_Suc [symmetric])
      then have m: "drop k (take n ?p) = ?p ! k # drop (Suc k) (take n ?p)"
        using kn by simp
      have "drop n (?fv[k := minfun e (?p ! k)]) = drop n ?fv"
        using kn by simp
      with l m False show ?thesis
        unfolding step using Suc.hyps(1) [OF d, of ?h] by simp
    qed
  qed
qed

lemma well_formed_init:
  assumes "DiffEvol_init np_seed f bnds npop ngen fa cp sd vb g h = Inr (e, g', h')"
  shows "well_formed e (result e) h'" and "n_pop e = npop" and "n_parm e = length bnds"
    and "n_gen e = ngen" and "verbose e = vb"
    and "np_seed sd = Inr s \<Longrightarrow> g' = advance (nat npop * length bnds) s"
proof -
  from assms obtain s' where n: "0 \<le> npop" "np_seed sd = Inr s'"
    by (rule DiffEvol_init_accepted)
  from DiffEvol_init_Inr [where np_seed = np_seed and sd = sd, OF n,
      of f bnds ngen fa cp vb g h] assms n(2)
  show "well_formed e (result e) h'" and "n_pop e = npop" and "n_parm e = length bnds"
    and "n_gen e = ngen" and "verbose e = vb"
    and "np_seed sd = Inr s \<Longrightarrow> g' = advance (nat npop * length bnds) s"
    by (auto simp: well_formed_def aliased_def madd_def mmul_def vadd_def vmul_def list_all_iff
        set_zip)
qed

lemma well_formed_initial:
  assumes "well_formed e r h"
  shows "\<exists>h'. evaluate_all e r [0..<nat (n_pop e)] h = Inr h' \<and> well_formed e r h'"
  using assms
  by (auto simp: evaluate_all_upt well_formed_def)

section \<open>One step of the sweep\<close>

lemma selection_cases:
  assumes "selection e r i u h = Inr h'" and "aliased r"
  shows "(\<not> minfun e u < vecs h (fitness r) ! i \<and> h' = h)
       \<or> (minfun e u < vecs h (fitness r) ! i
          \<and> i < length (mats h (population r)) \<and> i < length (vecs h (fitness r))
          \<and> h' = h\<lparr>mats := (mats h)(population r := (mats h (population r))[i := u]),
                   vecs := (vecs h)(fitness r := (vecs h (fitness r))[i := minfun e u])\<rparr>)"
  using assms
  by (auto simp: selection_def Let_def aliased_def get_item_def set_row_def set_item_def
      split: if_splits sum.splits)

lemma selection_returns:
  assumes "well_formed e r h" and "i < nat (n_pop e)" and "length u = n_parm e"
  shows "\<exists>h'. selection e r i u h = Inr h' \<and> well_formed e r h'"
  using assms
  by (auto simp: selection_def Let_def well_formed_def aliased_def get_item_def set_row_def
      set_item_def list_all_iff dest: set_update_subset_insert [THEN subsetD])

lemma mutant_returns:
  assumes "well_formed e r h" and "a < nat (n_pop e)" "b < nat (n_pop e)" "c < nat (n_pop e)"
  shows "\<exists>v. mutant e r (a, b, c) h = Inr v \<and> length v = n_parm e"
  using assms
  by (simp add: mutant_def get_row_def well_formed_def vadd_def vsub_def vscale_def
      list_all_length)

lemma advance_advance: "advance j (advance k g) = advance (k + j) g"
  by (simp add: advance_def ac_simps)

lemma np_where_nth:
  assumes "k < length c" "k < length x" "k < length y"
  shows "np_where c x y ! k = (if c ! k then x ! k else y ! k)"
  using assms by (simp add: np_where_def)

lemma np_where_length:
  "length (np_where c x y) = min (length c) (min (length x) (length y))"
  by (simp add: np_where_def)

lemma crossover_eq:
  assumes "0 < n_parm e" and "get_row h (pop r) i = Inr x"
    and "length v = n_parm e" and "length x = n_parm e"
  shows "crossover e r i v g h =
     Inr ((np_where (map (\<lambda>d. d \<le> C e) (map (\<lambda>j. uniform (g j)) [0..<n_parm e])) v x)
            [g (n_parm e) mod n_parm e := v ! (g (n_parm e) mod n_parm e)],
          advance (n_parm e + 1) g)"
proof -
  let ?n = "n_parm e"
  let ?w = "np_where (map (\<lambda>d. d \<le> C e) (map (\<lambda>j. uniform (g j)) [0..<?n])) v x"
  let ?ri = "g ?n mod ?n"
  have ri: "?ri < ?n" using assms(1) by simp
  have len: "length ?w = ?n" using assms(3,4) by (simp add: np_where_length)
  have rnd: "randint (int ?n) (advance ?n g) = Inr (?ri, advance (?n + 1) g)"
    using assms(1) by (simp add: randint_def advance_advance) (simp add: advance_def)
  show ?thesis
    unfolding crossover_def random_vec_def using assms(2,3) ri len rnd
    by (simp add: Let_def)
qed

text \<open>
  C10.  In a crossover step for a target row \<open>x\<close> and a mutant \<open>v\<close> of
  \<open>n_parm > 0\<close> entries, the trial \<open>u\<close> takes entry \<open>k\<close> from \<open>v\<close> if the
  \<open>k\<close>-th uniform draw is at most \<open>C\<close> (which has probability \<open>C\<close> for a
  uniform draw) and from \<open>x\<close> otherwise; then the index \<open>ri\<close> drawn by
  \<^verbatim>\<open>randint(n_parm)\<close> is overwritten with \<open>v\<close>'s entry, whatever the mask
  says.  So at least the entry \<open>ri\<close> of every trial comes from \<open>v\<close>.
\<close>

theorem forced_crossing:
  assumes "0 < n_parm e" and "get_row h (pop r) i = Inr x"
    and "length v = n_parm e" and "length x = n_parm e"
  shows "\<exists>u ri. crossover e r i v g h = Inr (u, advance (n_parm e + 1) g)
      \<and> ri = g (n_parm e) mod n_parm e \<and> ri < n_parm e \<and> length u = n_parm e
      \<and> u ! ri = v ! ri
      \<and> (\<forall>k<n_parm e. k \<noteq> ri \<longrightarrow> u ! k = (if uniform (g k) \<le> C e then v ! k else x ! k))"
proof -
  let ?n = "n_parm e"
  let ?w = "np_where (map (\<lambda>d. d \<le> C e) (map (\<lambda>j. uniform (g j)) [0..<?n])) v x"
  let ?ri = "g ?n mod ?n"
  have ri: "?ri < ?n" using assms(1) by simp
  have len: "length ?w = ?n" using assms(3,4) by (simp add: np_where_length)
  have "?w[?ri := v ! ?ri] ! k = (if uniform (g k) \<le> C e then v ! k else x ! k)"
    if "k < ?n" "k \<noteq> ?ri" for k
    using that assms(3,4) by (simp add: np_where_nth)
  moreover have "?w[?ri := v ! ?ri] ! ?ri = v ! ?ri"
    using ri len by simp
  ultimately show ?thesis
    using crossover_eq [OF assms, of g] ri len
    by (intro exI [of _ "?w[?ri := v ! ?ri]"] exI [of _ ?ri]) simp
qed

theorem forced_crossing_witness:
  "\<exists>e g1 h1 u.
     DiffEvol_init counting_seed sphere [(0, 2 ^ 53), (0, 2 ^ 53)] 4 1 (1/2) 0 0 False
       zero_rng empty_heap = Inr (e, g1, h1)
     \<and> 0 < n_parm e
     \<and> get_row h1 (pop (result e)) 0 = Inr [0, 1]
     \<and> crossover e (result e) 0 [7, 9] zero_rng h1 = Inr (u, advance 3 zero_rng)
     \<and> u ! 0 = 7"
proof -
  obtain e g1 h1 where
    c: "DiffEvol_init counting_seed sphere [(0, 2 ^ 53), (0, 2 ^ 53)] 4 1 (1/2) 0 0 False
          zero_rng empty_heap = Inr (e, g1, h1)"
    using DiffEvol_init_counting_returns [of 4] by force
  note w = well_formed_init [OF c]
  have n: "0 < n_parm e" "n_parm e = 2" using w(3) by simp_all
  have row: "get_row h1 (pop (result e)) 0 = Inr [0, 1]"
    using c DiffEvol_init_counting
        [of 4 sphere "[(0, 2 ^ 53), (0, 2 ^ 53)]" 1 "1/2" 0 False zero_rng empty_heap]
    by (auto simp: get_row_def madd_def mmul_def vadd_def vmul_def uniform_def counting_def
        numeral_2_eq_2 upt_rec)
  from forced_crossing [OF n(1) row, of "[7, 9]" zero_rng] n(2)
  obtain u where "crossover e (result e) 0 [7, 9] zero_rng h1 = Inr (u, advance 3 zero_rng)"
    "u ! 0 = 7"
    by (auto simp: zero_rng_def)
  with c n(1) row show ?thesis by blast
qed

lemma step_returns:
  assumes "well_formed e r h" and "4 \<le> n_pop e" and "i < nat (n_pop e)" and "0 < n_parm e"
    and "fair (nat (n_pop e)) g"
  shows "\<exists>g' h'. step e r i g h = Some (Inr (g', h')) \<and> well_formed e r h'
           \<and> fair (nat (n_pop e)) g'"
proof -
  from select_donors_fair [OF assms(2,5), of i] obtain t g1 where
    t: "select_donors (n_pop e) i g = Some (Inr (t, g1))" "fair (nat (n_pop e)) g1"
    by blast
  from select_donors_returns [OF t(1) assms(3)] obtain a b c where
    abc: "t = (a, b, c)" "a < nat (n_pop e)" "b < nat (n_pop e)" "c < nat (n_pop e)"
    by auto
  from mutant_returns [OF assms(1) abc(2,3,4)] obtain v where
    v: "mutant e r t h = Inr v" "length v = n_parm e"
    unfolding abc(1) by blast
  have row: "get_row h (pop r) i = Inr (mats h (pop r) ! i)"
    "length (mats h (pop r) ! i) = n_parm e"
    using assms(1,3) by (simp_all add: get_row_def well_formed_def list_all_length)
  from crossover_eq [OF assms(4) row(1) v(2) row(2), of g1] v(2) row(2) obtain u where
    u: "crossover e r i v g1 h = Inr (u, advance (n_parm e + 1) g1)" "length u = n_parm e"
    by (simp add: np_where_length)
  from selection_returns [OF assms(1,3) u(2)] obtain h' where
    h': "selection e r i u h = Inr h'" "well_formed e r h'"
    by blast
  from t v u h' have "step e r i g h = Some (Inr (advance (n_parm e + 1) g1, h'))"
    by (simp add: step_def and_then_def)
  with h'(2) fair_advance [OF t(2)] show ?thesis by blast
qed

lemma step_cases:
  assumes "step e r i g h = Some (Inr (g', h'))" and "aliased r"
  shows "h' = h
       \<or> (\<exists>u. minfun e u < vecs h (fitness r) ! i
          \<and> i < length (mats h (population r)) \<and> i < length (vecs h (fitness r))
          \<and> h' = h\<lparr>mats := (mats h)(population r := (mats h (population r))[i := u]),
                   vecs := (vecs h)(fitness r := (vecs h (fitness r))[i := minfun e u])\<rparr>)"
proof -
  from assms(1) obtain u where "selection e r i u h = Inr h'"
    by (auto simp: step_def and_then_def split: option.splits sum.splits prod.splits)
  from selection_cases [OF this assms(2)] show ?thesis by blast
qed

lemma step_improves:
  assumes "step e r i g h = Some (Inr (g', h'))" and "aliased r"
  shows "slot_kept_or_improved e r h h' k"
  using step_cases [OF assms]
  by (cases "k = i") (auto simp: slot_kept_or_improved_def)

lemma slot_trans:
  assumes "slot_kept_or_improved e r h h1 k" and "slot_kept_or_improved e r h1 h2 k"
  shows "slot_kept_or_improved e r h h2 k"
  using assms unfolding slot_kept_or_improved_def by auto

lemma sweep_improves:
  assumes "sweep e r is g h = Some (Inr (g', h'))" and "aliased r"
  shows "slot_kept_or_improved e r h h' k"
  using assms(1)
proof (induction "is" arbitrary: g h)
  case Nil
  then show ?case by (simp add: slot_kept_or_improved_def)
next
  case (Cons i "is")
  from Cons.prems obtain g1 h1 where
    s: "step e r i g h = Some (Inr (g1, h1))" and t: "sweep e r is g1 h1 = Some (Inr (g', h'))"
    by (auto simp: and_then_Some_Inr)
  from slot_trans [OF step_improves [OF s assms(2)] Cons.IH [OF t]] show ?case .
qed

lemma sweep_returns:
  assumes "well_formed e r h" and "4 \<le> n_pop e" and "0 < n_parm e"
    and "fair (nat (n_pop e)) g" and "\<forall>i \<in> set is. i < nat (n_pop e)"
  shows "\<exists>g' h'. sweep e r is g h = Some (Inr (g', h')) \<and> well_formed e r h'
           \<and> fair (nat (n_pop e)) g'"
  using assms(1,4,5)
proof (induction "is" arbitrary: g h)
  case Nil
  then show ?case by simp
next
  case (Cons i "is")
  from Cons.prems(3) have i: "i < nat (n_pop e)" by simp
  from step_returns [OF Cons.prems(1) assms(2) i assms(3) Cons.prems(2)] obtain g1 h1 where
    s: "step e r i g h = Some (Inr (g1, h1))" "well_formed e r h1" "fair (nat (n_pop e)) g1"
    by blast
  from Cons.IH [OF s(2,3)] Cons.prems(3) obtain g' h' where
    "sweep e r is g1 h1 = Some (Inr (g', h'))" "well_formed e r h'" "fair (nat (n_pop e)) g'"
    by auto
  with s(1) show ?case by (simp add: and_then_simps)
qed

text \<open>
  The first sweep of a concrete engine: objective \<open>(x - 3)\<^sup>2\<close>, one parameter, four
  individuals that start at 0, 1, 2 and 3, \<open>F = C = 1/2\<close>.  Slots 0 and 1 improve,
  slots 2 and 3 keep what they have.
\<close>

lemma first_sweep_example:
  "\<exists>e g1 h1 h2 g' h'.
     DiffEvol_init counting_seed quadratic [(0, 2 ^ 53)] 4 1 (1/2) (1/2) 0 False
       zero_rng empty_heap = Inr (e, g1, h1)
     \<and> aliased (result e)
     \<and> evaluate_all e (result e) [0..<nat (n_pop e)] h1 = Inr h2
     \<and> sweep e (result e) [0..<nat (n_pop e)] g1 h2 = Some (Inr (g', h'))
     \<and> vecs h2 (fitness (result e)) = [9, 4, 1, 0]
     \<and> vecs h' (fitness (result e)) = [25/4, 1/16, 1, 0]"
  by (simp add: DiffEvol_init_counting aliased_def
      and_then_simps empty_heap_def madd_def mmul_def vadd_def vmul_def vsub_def vscale_def
      uniform_def counting_def
      get_row_def set_row_def get_item_def set_item_def quadratic_def upt4
      step_def select_donors_def redraw_accept redraw_reject randint_def advance_def
      mutant_def crossover_def selection_def random_vec_def np_where_def Let_def
      replicate4 update2 update3)

text \<open>
  C7.  Over one generation (one sweep of the target index over all slots), from any
  store in which the two names of each array are aliases as the constructor makes them:
  for every slot \<open>i\<close> the fitness after the sweep is at most the fitness before it,
  and either the row and its fitness are both unchanged, or both were replaced, by a
  trial whose objective value is strictly lower than the fitness before and is the
  fitness now.
\<close>

theorem generation_never_worsens_a_slot:
  assumes "aliased r" and "sweep e r [0..<nat (n_pop e)] g h = Some (Inr (g', h'))"
  shows "vecs h' (fitness r) ! i \<le> vecs h (fitness r) ! i \<and> slot_kept_or_improved e r h h' i"
  using sweep_improves [OF assms(2,1), of i]
  by (auto simp: slot_kept_or_improved_def)

theorem generation_never_worsens_a_slot_witness:
  "\<exists>e g1 h1 h2 g' h'.
     DiffEvol_init counting_seed quadratic [(0, 2 ^ 53)] 4 1 (1/2) (1/2) 0 False
       zero_rng empty_heap = Inr (e, g1, h1)
     \<and> aliased (result e)
     \<and> evaluate_all e (result e) [0..<nat (n_pop e)] h1 = Inr h2
     \<and> sweep e (result e) [0..<nat (n_pop e)] g1 h2 = Some (Inr (g', h'))
     \<and> vecs h2 (fitness (result e)) = [9, 4, 1, 0]
     \<and> vecs h' (fitness (result e)) = [25/4, 1/16, 1, 0]
     \<and> vecs h' (fitness (result e)) ! 0 \<le> vecs h2 (fitness (result e)) ! 0
     \<and> slot_kept_or_improved e (result e) h2 h' 0"
proof -
  from first_sweep_example obtain e g1 h1 h2 g' h' where
    c: "DiffEvol_init counting_seed quadratic [(0, 2 ^ 53)] 4 1 (1/2) (1/2) 0 False
          zero_rng empty_heap = Inr (e, g1, h1)"
    and a: "aliased (result e)"
    and h2: "evaluate_all e (result e) [0..<nat (n_pop e)] h1 = Inr h2"
    and s: "sweep e (result e) [0..<nat (n_pop e)] g1 h2 = Some (Inr (g', h'))"
    and v: "vecs h2 (fitness (result e)) = [9, 4, 1, 0]"
      "vecs h' (fitness (result e)) = [25/4, 1/16, 1, 0]"
    by blast
  from generation_never_worsens_a_slot [OF a s, of 0] c a h2 s v show ?thesis by blast
qed

section \<open>The whole run\<close>

lemma generations_verbose:
  assumes "verbose e" and "sweep e r [0..<nat (n_pop e)] g h = Some (Inr x)"
  shows "generations e r (j # js) g h = Some (Inl AttributeError)"
  using assms by (simp add: and_then_simps progress_def split: prod.splits)

lemma generations_quiet:
  assumes "\<not> verbose e" and "4 \<le> n_pop e" and "0 < n_parm e"
    and "well_formed e r h" and "fair (nat (n_pop e)) g"
  shows "\<exists>g' h'. generations e r js g h = Some (Inr (g', h')) \<and> well_formed e r h'
           \<and> fair (nat (n_pop e)) g'"
  using assms(4,5)
proof (induction js arbitrary: g h)
  case Nil
  then show ?case by simp
next
  case (Cons j js)
  from sweep_returns [OF Cons.prems(1) assms(2,3) Cons.prems(2), of "[0..<nat (n_pop e)]"]
  obtain g1 h1 where
    s: "sweep e r [0..<nat (n_pop e)] g h = Some (Inr (g1, h1))" "well_formed e r h1"
      "fair (nat (n_pop e)) g1"
    by auto
  from Cons.IH [OF s(2,3)] s(1) assms(1) show ?case
    by (simp add: and_then_simps progress_def)
qed

lemma argmin_least:
  assumes "xs \<noteq> []"
  shows "\<exists>k. argmin xs = Inr k \<and> k < length xs \<and> (\<forall>j<length xs. xs ! k \<le> xs ! j)
           \<and> (\<forall>j<k. xs ! k < xs ! j)"
proof -
  let ?m = "min_list xs"
  let ?k = "length (takeWhile (\<lambda>x. ?m < x) xs)"
  have mm: "?m = Min (set xs)" using assms by (rule min_list_Min)
  have m: "?m \<in> set xs" unfolding mm using assms by (intro Min_in) simp_all
  have le: "\<forall>x \<in> set xs. ?m \<le> x" unfolding mm by simp
  have "\<exists>x \<in> set xs. \<not> ?m < x" using m by auto
  then have "takeWhile (\<lambda>x. ?m < x) xs \<noteq> xs" by simp
  then have "?k \<noteq> length xs"
    by (metis takeWhile_eq_take take_all order_refl)
  with length_takeWhile_le [of "\<lambda>x. ?m < x" xs] have k: "?k < length xs" by simp
  then have "\<not> ?m < xs ! ?k" by (rule nth_length_takeWhile)
  moreover have "?m \<le> xs ! ?k" using le k by simp
  ultimately have eq: "xs ! ?k = ?m" by simp
  have "\<forall>j<?k. ?m < xs ! j"
  proof (intro allI impI)
    fix j assume j: "j < ?k"
    then have "takeWhile (\<lambda>x. ?m < x) xs ! j = xs ! j" by (rule takeWhile_nth)
    moreover have "takeWhile (\<lambda>x. ?m < x) xs ! j \<in> set (takeWhile (\<lambda>x. ?m < x) xs)"
      using j by simp
    ultimately show "?m < xs ! j" by (auto dest: set_takeWhileD)
  qed
  with k eq le assms show ?thesis by (simp add: argmin_def)
qed

text \<open>A quiet run of a well-formed engine of at least four individuals on a fair stream
  returns, with \<open>minidx\<close> at a least entry of the final fitness vector.\<close>

lemma call_quiet:
  assumes "\<not> verbose e" and "4 \<le> n_pop e" and "0 < n_parm e"
    and "well_formed e (result e) h" and "fair (nat (n_pop e)) g"
  shows "\<exists>k g' h'. DiffEvol_call e g h = Some (Inr ((result e)\<lparr>minidx := Some k\<rparr>, g', h'))
     \<and> k < length (vecs h' (fitness (result e)))
     \<and> (\<forall>j<length (vecs h' (fitness (result e))).
           vecs h' (fitness (result e)) ! k \<le> vecs h' (fitness (result e)) ! j)"
proof -
  from well_formed_initial [OF assms(4)] obtain h0 where
    h0: "evaluate_all e (result e) [0..<nat (n_pop e)] h = Inr h0" "well_formed e (result e) h0"
    by blast
  from generations_quiet [OF assms(1,2,3) h0(2) assms(5), of "[0..<nat (n_gen e)]"]
  obtain g' h' where
    g: "generations e (result e) [0..<nat (n_gen e)] g h0 = Some (Inr (g', h'))"
      "well_formed e (result e) h'"
    by blast
  have "vecs h' (fitness (result e)) \<noteq> []"
    using g(2) assms(2) by (auto simp: well_formed_def aliased_def)
  from argmin_least [OF this] obtain k where
    "argmin (vecs h' (fitness (result e))) = Inr k" "k < length (vecs h' (fitness (result e)))"
    "\<forall>j<length (vecs h' (fitness (result e))).
           vecs h' (fitness (result e)) ! k \<le> vecs h' (fitness (result e)) ! j"
    by blast
  with h0(1) g(1) show ?thesis
    by (intro exI [of _ k]) (simp add: DiffEvol_call_def and_then_simps)
qed

text \<open>With \<^verbatim>\<open>verbose\<close> the same run stops after its first generation.\<close>

lemma call_verbose:
  assumes "verbose e" and "4 \<le> n_pop e" and "0 < n_parm e" and "1 \<le> n_gen e"
    and "well_formed e (result e) h" and "fair (nat (n_pop e)) g"
  shows "DiffEvol_call e g h = Some (Inl AttributeError)"
proof -
  from well_formed_initial [OF assms(5)] obtain h0 where
    h0: "evaluate_all e (result e) [0..<nat (n_pop e)] h = Inr h0" "well_formed e (result e) h0"
    by blast
  from sweep_returns [OF h0(2) assms(2,3,6), of "[0..<nat (n_pop e)]"]
  obtain x where s: "sweep e (result e) [0..<nat (n_pop e)] g h0 = Some (Inr x)"
    by auto
  have "[0..<nat (n_gen e)] = 0 # [Suc 0..<nat (n_gen e)]"
    using assms(4) by (intro upt_conv_Cons) simp
  with generations_verbose [OF assms(1) s]
  have "generations e (result e) [0..<nat (n_gen e)] g h0 = Some (Inl AttributeError)"
    by simp
  with h0(1) show ?thesis
    by (simp add: DiffEvol_call_def and_then_simps)
qed

lemma call_small:
  assumes "1 \<le> n_pop e" and "n_pop e \<le> 3" and "1 \<le> n_gen e"
    and "well_formed e (result e) h"
  shows "DiffEvol_call e g h = None"
proof -
  from well_formed_initial [OF assms(4)] obtain h0 where
    h0: "evaluate_all e (result e) [0..<nat (n_pop e)] h = Inr h0"
    by blast
  have i: "0 < nat (n_pop e)" using assms(1) by simp
  have "step e (result e) 0 g h0 = None"
    by (simp add: step_def select_donors_small [OF assms(2) i] and_then_simps)
  moreover have "[0..<nat (n_pop e)] = 0 # [Suc 0..<nat (n_pop e)]"
    using i by (rule upt_conv_Cons)
  ultimately have "sweep e (result e) [0..<nat (n_pop e)] g h0 = None"
    by (simp add: and_then_simps)
  moreover have "[0..<nat (n_gen e)] = 0 # [Suc 0..<nat (n_gen e)]"
    using assms(3) by (intro upt_conv_Cons) simp
  ultimately have "generations e (result e) [0..<nat (n_gen e)] g h0 = None"
    by (simp add: and_then_simps)
  with h0 show ?thesis
    by (simp add: DiffEvol_call_def and_then_simps)
qed

text \<open>
  A run by the numbers: the engine of \<open>first_sweep_example\<close>, one generation, not
  verbose.  It returns the population and the fitness vector that the one sweep leaves,
  with \<open>minidx\<close> at the least fitness.
\<close>

lemma quiet_run_example:
  "final_arrays (construct_and_run counting_seed quadratic [(0, 2 ^ 53)] 4 1 (1/2) (1/2) 0 False
      zero_rng empty_heap)
   = Some (Inr ([[1/2], [13/4], [2], [3]], [25/4, 1/16, 1, 0], Some 3))"
  by (simp add: construct_and_run_def DiffEvol_init_counting DiffEvol_call_def
      final_arrays_def
      and_then_simps empty_heap_def madd_def mmul_def vadd_def vmul_def vsub_def vscale_def
      uniform_def counting_def
      argmin_def get_row_def set_row_def get_item_def set_item_def quadratic_def upt4
      step_def select_donors_def redraw_accept redraw_reject randint_def advance_def
      mutant_def crossover_def selection_def random_vec_def np_where_def progress_def Let_def
      replicate4 update2 update3)

text \<open>
  C2 (the code at the failing input).  Four individuals, one parameter, two generations,
  \<^verbatim>\<open>verbose=True\<close> (the default): construct-and-run raises AttributeError, from
  \<^verbatim>\<open>self.rank\<close> in the progress line after the first generation, and returns no
  result.
\<close>

theorem verbose_run_raises_AttributeError:
  "construct_and_run counting_seed sphere [(0, 2 ^ 53)] 4 2 (1/2) (1/2) 0 True
      zero_rng empty_heap = Some (Inl AttributeError)"
proof -
  obtain e g1 h1 where
    c: "DiffEvol_init counting_seed sphere [(0, 2 ^ 53)] 4 2 (1/2) (1/2) 0 True
          zero_rng empty_heap = Inr (e, g1, h1)"
    using DiffEvol_init_counting_returns [of 4] by force
  note w = well_formed_init [OF c]
  have "fair (nat (n_pop e)) g1"
    unfolding w(2) w(6) [OF counting_seed_0] using fair_advance [OF fair_counting] by simp
  with w have "DiffEvol_call e g1 h1 = Some (Inl AttributeError)"
    by (intro call_verbose) simp_all
  with c show ?thesis by (simp add: construct_and_run_def)
qed

text \<open>
  C4 (as stated, refuted).  Three individuals and no generation: the loops over the
  generations are never entered, and the run returns the initial population with its
  fitness and \<open>minidx\<close>.
\<close>

theorem small_population_without_generations_returns:
  "final_arrays (construct_and_run counting_seed sphere [(0, 2 ^ 53)] 3 0 (1/2) (1/2) 0 False
      zero_rng empty_heap) = Some (Inr ([[0], [1], [2]], [0, 1, 4], Some 0))"
  by (simp add: construct_and_run_def DiffEvol_init_counting DiffEvol_call_def
      final_arrays_def
      and_then_simps empty_heap_def madd_def mmul_def vadd_def vmul_def uniform_def counting_def
      argmin_def get_row_def set_item_def sphere_def numeral_3_eq_3)

text \<open>
  C4 (amended).  An engine constructed with one, two or three individuals and at least one
  generation never returns from \<^verbatim>\<open>__call__\<close>, whatever the generator draws:
  the donor selection of the first target index needs four distinct indices below
  \<open>n_pop\<close>.
\<close>

theorem small_population_never_returns:
  assumes "DiffEvol_init np_seed f bnds npop ngen fa cp sd vb g0 h0 = Inr (e, g1, h1)"
    and "1 \<le> npop" and "npop \<le> 3" and "1 \<le> ngen"
  shows "DiffEvol_call e g h1 = None"
  using call_small [of e h1 g] well_formed_init [OF assms(1)] assms(2,3,4)
  by simp

theorem small_population_never_returns_witness:
  "\<exists>e g1 h1. DiffEvol_init counting_seed sphere [(0, 2 ^ 53)] 3 1 (1/2) (1/2) 0 False
       zero_rng empty_heap = Inr (e, g1, h1)
     \<and> DiffEvol_call e zero_rng h1 = None \<and> DiffEvol_call e g1 h1 = None"
proof -
  obtain e g1 h1 where
    c: "DiffEvol_init counting_seed sphere [(0, 2 ^ 53)] 3 1 (1/2) (1/2) 0 False
          zero_rng empty_heap = Inr (e, g1, h1)"
    using DiffEvol_init_counting_returns [of 3] by force
  from small_population_never_returns [OF c] c show ?thesis by simp
qed

section \<open>The order of a run\<close>

text \<open>
  The engine of \<open>first_sweep_example\<close> run for two generations, not verbose: both
  generations are swept, the second on the store the first left, and the run returns.
\<close>

lemma quiet_run_two_generations:
  "final_arrays (construct_and_run counting_seed quadratic [(0, 2 ^ 53)] 4 2 (1/2) (1/2) 0 False
      zero_rng empty_heap)
   = Some (Inr ([[11/4], [13/4], [11/4], [3]], [1/16, 1/16, 1/16, 0], Some 3))"
  by (simp add: construct_and_run_def DiffEvol_init_counting DiffEvol_call_def
      final_arrays_def
      and_then_simps empty_heap_def madd_def mmul_def vadd_def vmul_def vsub_def vscale_def
      uniform_def counting_def
      argmin_def get_row_def set_row_def get_item_def set_item_def quadratic_def upt4
      step_def select_donors_def redraw_accept redraw_reject randint_def advance_def
      mutant_def crossover_def selection_def random_vec_def np_where_def progress_def Let_def
      replicate4 update2 update3 upt_rec [of 0 2] upt_rec [of "Suc 0" 2])

text \<open>
  C6 (the code at the failing input).  Four individuals, one parameter, the squared
  distance from 3 as objective, two generations, \<^verbatim>\<open>verbose=True\<close> (the default).
  The run begins in the reference order: the objective is evaluated once for each of the
  four initial individuals, before anything else (fitness 9, 4, 1, 0); the first
  generation sweeps the target index from 0 to 3 on the one store, so that slot 1, whose
  donors are 2, 3 and 0, builds its mutant \<open>2 + (3 - 1/2)/2 = 13/4\<close> from the row
  that slot 0 has just written (from the rows as they were when the generation began it
  would have been \<open>2 + (3 - 0)/2 = 7/2\<close>).  Then the progress line raises
  AttributeError: the second of the two generations is never swept, and the store stays
  as the first generation left it.  The same engine with \<^verbatim>\<open>verbose=False\<close>
  sweeps both generations and returns another population.
\<close>

theorem verbose_run_stops_after_first_generation:
  "(\<exists>e g1 h1 h2 g3 h3 g5 g' h'.
      DiffEvol_init counting_seed quadratic [(0, 2 ^ 53)] 4 2 (1/2) (1/2) 0 True
        zero_rng empty_heap = Inr (e, g1, h1)
      \<and> evaluate_all e (result e) [0..<nat (n_pop e)] h1 = Inr h2
      \<and> mats h2 (population (result e)) = [[0], [1], [2], [3]]
      \<and> vecs h2 (fitness (result e)) = [9, 4, 1, 0]
      \<and> step e (result e) 0 g1 h2 = Some (Inr (g3, h3))
      \<and> mats h3 (population (result e)) = [[1/2], [1], [2], [3]]
      \<and> select_donors (n_pop e) 1 g3 = Some (Inr ((2, 3, 0), g5))
      \<and> mutant e (result e) (2, 3, 0) h3 = Inr [13/4]
      \<and> mutant e (result e) (2, 3, 0) h2 = Inr [7/2]
      \<and> sweep e (result e) [0..<nat (n_pop e)] g1 h2 = Some (Inr (g', h'))
      \<and> mats h' (population (result e)) = [[1/2], [13/4], [2], [3]]
      \<and> vecs h' (fitness (result e)) = [25/4, 1/16, 1, 0]
      \<and> n_gen e = 2
      \<and> generations e (result e) [0..<nat (n_gen e)] g1 h2 = Some (Inl AttributeError)
      \<and> DiffEvol_call e g1 h1 = Some (Inl AttributeError))
   \<and> final_arrays (construct_and_run counting_seed quadratic [(0, 2 ^ 53)] 4 2 (1/2) (1/2) 0
         False zero_rng empty_heap)
       = Some (Inr ([[11/4], [13/4], [11/4], [3]], [1/16, 1/16, 1/16, 0], Some 3))"
  by (rule conjI [OF _ quiet_run_two_generations])
    (simp add: DiffEvol_init_counting DiffEvol_call_def
      and_then_simps empty_heap_def madd_def mmul_def vadd_def vmul_def vsub_def vscale_def
      uniform_def counting_def
      get_row_def set_row_def get_item_def set_item_def quadratic_def upt4
      step_def select_donors_def redraw_accept redraw_reject randint_def advance_def
      mutant_def crossover_def selection_def random_vec_def np_where_def progress_def Let_def
      replicate4 update2 update3 upt_rec [of 0 2] upt_rec [of "Suc 0" 2])

section \<open>Determinism\<close>

lemma same_outcome_cases [consumes 1, case_names diverge raise return]:
  assumes "same_outcome r1 r2 m1 m2"
  obtains "m1 = None" "m2 = None"
  | err where "m1 = Some (Inl err)" "m2 = Some (Inl err)"
  | g h1 h2 where "m1 = Some (Inr (g, h1))" "m2 = Some (Inr (g, h2))" "same_arrays r1 h1 r2 h2"
proof (cases m1)
  case None
  with assms that(1) show ?thesis by (simp add: same_outcome_def)
next
  case (Some a)
  show ?thesis
  proof (cases a)
    case (Inl err)
    with Some assms that(2) show ?thesis by (simp add: same_outcome_def)
  next
    case (Inr p)
    obtain g h1 where "p = (g, h1)" by (cases p)
    with assms Some Inr that(3) show ?thesis
      by (auto simp: same_outcome_def split: option.splits sum.splits)
  qed
qed

lemma same_outcome_and_then:
  assumes "same_outcome r1 r2 m1 m2"
    and "\<And>g h1 h2. same_arrays r1 h1 r2 h2 \<Longrightarrow> same_outcome r1 r2 (k1 (g, h1)) (k2 (g, h2))"
  shows "same_outcome r1 r2 (and_then m1 k1) (and_then m2 k2)"
proof (cases m1)
  case None
  with assms(1) show ?thesis by (simp add: same_outcome_def and_then_simps)
next
  case (Some a)
  show ?thesis
  proof (cases a)
    case (Inl err)
    with Some assms(1) show ?thesis by (simp add: same_outcome_def and_then_simps)
  next
    case (Inr p)
    obtain g h1 where p: "p = (g, h1)" by (cases p)
    from assms(1) Some Inr p obtain h2 where
      m2: "m2 = Some (Inr (g, h2))" and s: "same_arrays r1 h1 r2 h2"
      by (cases rule: same_outcome_cases) simp_all
    from assms(2) [OF s, of g] Some Inr p m2 show ?thesis
      by (simp add: and_then_simps)
  qed
qed

lemma get_row_same:
  "same_arrays r1 h1 r2 h2 \<Longrightarrow> get_row h1 (pop r1) k = get_row h2 (pop r2) k"
  by (simp add: same_arrays_def get_row_def)

lemma mutant_same:
  assumes "same_arrays r1 h1 r2 h2"
  shows "mutant e r1 t h1 = mutant e r2 t h2"
  unfolding mutant_def get_row_same [OF assms] ..

lemma crossover_same:
  assumes "same_arrays r1 h1 r2 h2"
  shows "crossover e r1 i v g h1 = crossover e r2 i v g h2"
  unfolding crossover_def get_row_same [OF assms] ..

lemma selection_same:
  assumes "same_arrays r1 h1 r2 h2"
  shows "case selection e r1 i u h1 of
           Inl err \<Rightarrow> selection e r2 i u h2 = Inl err
         | Inr h1' \<Rightarrow> (\<exists>h2'. selection e r2 i u h2 = Inr h2' \<and> same_arrays r1 h1' r2 h2')"
  using assms
  by (auto simp: selection_def Let_def same_arrays_def aliased_def get_item_def set_row_def
      set_item_def split: sum.splits)

lemma step_same:
  assumes "same_arrays r1 h1 r2 h2"
  shows "same_outcome r1 r2 (step e r1 i g h1) (step e r2 i g h2)"
proof (cases "select_donors (n_pop e) i g")
  case None
  then show ?thesis by (simp add: step_def and_then_simps same_outcome_def)
next
  case (Some res)
  show ?thesis
  proof (cases res)
    case (Inl err)
    with Some show ?thesis by (simp add: step_def and_then_simps same_outcome_def)
  next
    case (Inr tg)
    obtain t g1 where tg: "tg = (t, g1)" by (cases tg)
    show ?thesis
    proof (cases "mutant e r2 t h2")
      case (Inl err)
      with Some Inr tg mutant_same [OF assms, of e t] show ?thesis
        by (simp add: step_def and_then_simps same_outcome_def)
    next
      case v: (Inr v)
      show ?thesis
      proof (cases "crossover e r2 i v g1 h2")
        case (Inl err)
        with Some Inr tg v mutant_same [OF assms, of e t] crossover_same [OF assms, of e i v g1]
        show ?thesis
          by (simp add: step_def and_then_simps same_outcome_def)
      next
        case u: (Inr ug)
        obtain u g2 where ug: "ug = (u, g2)" by (cases ug)
        from selection_same [OF assms, of e i u]
          Some Inr tg v u ug mutant_same [OF assms, of e t] crossover_same [OF assms, of e i v g1]
        show ?thesis
          by (auto simp: step_def and_then_simps same_outcome_def split: sum.splits)
      qed
    qed
  qed
qed

lemma sweep_same:
  assumes "same_arrays r1 h1 r2 h2"
  shows "same_outcome r1 r2 (sweep e r1 is g h1) (sweep e r2 is g h2)"
  using assms
proof (induction "is" arbitrary: g h1 h2)
  case Nil
  then show ?case by (simp add: same_outcome_def)
next
  case (Cons i "is")
  show ?case
    unfolding sweep.simps
    by (rule same_outcome_and_then [OF step_same [OF Cons.prems]]) (simp add: Cons.IH)
qed

lemma generations_same:
  assumes "same_arrays r1 h1 r2 h2"
  shows "same_outcome r1 r2 (generations e r1 js g h1) (generations e r2 js g h2)"
  using assms
proof (induction js arbitrary: g h1 h2)
  case Nil
  then show ?case by (simp add: same_outcome_def)
next
  case (Cons j js)
  show ?case
    unfolding generations.simps
  proof (rule same_outcome_and_then [OF sweep_same [OF Cons.prems]])
    fix g' h1' h2'
    assume "same_arrays r1 h1' r2 h2'"
    then show "same_outcome r1 r2
        (case (g', h1') of (g', h') \<Rightarrow>
           case progress e of Inl err \<Rightarrow> Some (Inl err) | Inr _ \<Rightarrow> generations e r1 js g' h')
        (case (g', h2') of (g', h') \<Rightarrow>
           case progress e of Inl err \<Rightarrow> Some (Inl err) | Inr _ \<Rightarrow> generations e r2 js g' h')"
      by (cases "progress e") (simp_all add: Cons.IH, simp add: same_outcome_def)
  qed
qed

lemma evaluate_all_same:
  assumes "same_arrays r1 h1 r2 h2"
  shows "case evaluate_all e r1 is h1 of
           Inl err \<Rightarrow> evaluate_all e r2 is h2 = Inl err
         | Inr h1' \<Rightarrow> (\<exists>h2'. evaluate_all e r2 is h2 = Inr h2' \<and> same_arrays r1 h1' r2 h2')"
  using assms
proof (induction "is" arbitrary: h1 h2)
  case Nil
  then show ?case by simp
next
  case (Cons i "is")
  show ?case
  proof (cases "i < length (mats h1 (pop r1)) \<and> i < length (vecs h1 (fit r1))")
    case False
    with Cons.prems show ?thesis
      by (auto simp: get_row_def set_item_def same_arrays_def)
  next
    case True
    let ?h1 = "h1\<lparr>vecs := (vecs h1)(fit r1 := (vecs h1 (fit r1))[i := minfun e (mats h1 (pop r1) ! i)])\<rparr>"
    let ?h2 = "h2\<lparr>vecs := (vecs h2)(fit r2 := (vecs h2 (fit r2))[i := minfun e (mats h2 (pop r2) ! i)])\<rparr>"
    have s: "same_arrays r1 ?h1 r2 ?h2"
      using Cons.prems by (simp add: same_arrays_def)
    have eq: "evaluate_all e r1 (i # is) h1 = evaluate_all e r1 is ?h1"
      "evaluate_all e r2 (i # is) h2 = evaluate_all e r2 is ?h2"
      using True Cons.prems by (simp_all add: get_row_def set_item_def same_arrays_def)
    show ?thesis unfolding eq by (rule Cons.IH [OF s])
  qed
qed

text \<open>The loops take the result object as an argument of their own: which result object
  the engine holds makes no difference to them.\<close>

lemma step_result_irrelevant: "step (e\<lparr>result := r'\<rparr>) r i g h = step e r i g h"
  by (simp add: step_def mutant_def crossover_def selection_def
      cong: sum.case_cong prod.case_cong option.case_cong)

lemma sweep_result_irrelevant: "sweep (e\<lparr>result := r'\<rparr>) r is g h = sweep e r is g h"
  by (induction "is" arbitrary: g h) (simp_all add: step_result_irrelevant split_def)

lemma generations_result_irrelevant:
  "generations (e\<lparr>result := r'\<rparr>) r js g h = generations e r js g h"
  by (induction js arbitrary: g h)
    (simp_all add: sweep_result_irrelevant progress_def split_def)

lemma evaluate_all_result_irrelevant:
  "evaluate_all (e\<lparr>result := r'\<rparr>) r is h = evaluate_all e r is h"
  by (induction "is" arbitrary: h) (simp_all cong: sum.case_cong)

lemma call_same:
  assumes "same_arrays (result e) h1 r2 h2"
  shows "final_arrays (DiffEvol_call e g h1) = final_arrays (DiffEvol_call (e\<lparr>result := r2\<rparr>) g h2)"
proof -
  let ?r1 = "result e" and ?n = "[0..<nat (n_pop e)]" and ?m = "[0..<nat (n_gen e)]"
  show ?thesis
  proof (cases "evaluate_all e ?r1 ?n h1")
    case (Inl err)
    with evaluate_all_same [OF assms, of e ?n] show ?thesis
      by (simp add: DiffEvol_call_def evaluate_all_result_irrelevant final_arrays_def)
  next
    case (Inr h1')
    with evaluate_all_same [OF assms, of e ?n] obtain h2' where
      h2': "evaluate_all e r2 ?n h2 = Inr h2'" and s: "same_arrays ?r1 h1' r2 h2'"
      by auto
    from generations_same [OF s, of e ?m g] show ?thesis
    proof (cases rule: same_outcome_cases)
      case diverge
      with Inr h2' show ?thesis
        by (simp add: DiffEvol_call_def evaluate_all_result_irrelevant
            generations_result_irrelevant final_arrays_def and_then_simps)
    next
      case (raise err)
      with Inr h2' show ?thesis
        by (simp add: DiffEvol_call_def evaluate_all_result_irrelevant
            generations_result_irrelevant final_arrays_def and_then_simps)
    next
      case (return g' k1 k2)
      from return(3) have "vecs k1 (fitness ?r1) = vecs k2 (fitness r2)"
        "mats k1 (population ?r1) = mats k2 (population r2)"
        unfolding same_arrays_def aliased_def by metis+
      with Inr h2' return(1,2) show ?thesis
        by (simp add: DiffEvol_call_def evaluate_all_result_irrelevant
            generations_result_irrelevant final_arrays_def and_then_simps split: sum.splits)
    qed
  qed
qed

text \<open>
  C5.  Two executions with the same seed, bounds, \<open>F\<close>, \<open>C\<close>, \<open>n_pop\<close>,
  \<open>n_gen\<close>, verbosity and objective function end alike, whatever state the global
  generator was in before each (\<open>g1\<close>, \<open>g2\<close>) and wherever each keeps its arrays
  (\<open>h1\<close>, \<open>h2\<close>): both do not return, or both raise the same exception, or both
  return the same final population, the same final fitness vector and the same
  \<open>minidx\<close>.  The constructor reseeds the generator before the first draw and no
  draw comes from anywhere else.
\<close>

theorem run_independent_of_prior_state:
  "final_arrays (construct_and_run np_seed f bnds npop ngen fa cp sd vb g1 h1)
     = final_arrays (construct_and_run np_seed f bnds npop ngen fa cp sd vb g2 h2)"
proof (cases "0 \<le> npop")
  case False
  then show ?thesis
    by (simp add: construct_and_run_def DiffEvol_init_def tile_def)
next
  case True
  show ?thesis
  proof (cases "np_seed sd")
    case (Inl err)
    then show ?thesis
      by (simp add: construct_and_run_def DiffEvol_init_def tile_def)
  next
    case (Inr s)
    let ?r1 = "\<lparr>population = brk h1, fitness = brk h1 + 1, pop = brk h1, fit = brk h1 + 1,
                minidx = None\<rparr>"
    let ?r2 = "\<lparr>population = brk h2, fitness = brk h2 + 1, pop = brk h2, fit = brk h2 + 1,
                minidx = None\<rparr>"
    note init1 = DiffEvol_init_Inr [where np_seed = np_seed and sd = sd, OF True Inr,
        of f bnds ngen fa cp vb g1 h1]
    note init2 = DiffEvol_init_Inr [where np_seed = np_seed and sd = sd, OF True Inr,
        of f bnds ngen fa cp vb g2 h2]
    obtain e1 g' k1 where
      i1: "DiffEvol_init np_seed f bnds npop ngen fa cp sd vb g1 h1 = Inr (e1, g', k1)"
      using init1 by simp
    have r1: "result e1 = ?r1" using init1 i1 by auto
    obtain k2 where
      i2: "DiffEvol_init np_seed f bnds npop ngen fa cp sd vb g2 h2
             = Inr (e1\<lparr>result := ?r2\<rparr>, g', k2)"
      using init1 init2 i1 by auto
    have "mats k2 (brk h2) = mats k1 (brk h1)" "vecs k2 (brk h2 + 1) = vecs k1 (brk h1 + 1)"
      using init1 init2 i1 i2 by auto
    then have "same_arrays (result e1) k1 ?r2 k2"
      by (simp add: r1 same_arrays_def aliased_def)
    then have "final_arrays (DiffEvol_call e1 g' k1)
          = final_arrays (DiffEvol_call (e1\<lparr>result := ?r2\<rparr>) g' k2)"
      by (rule call_same)
    then show ?thesis
      by (simp add: construct_and_run_def i1 i2)
  qed
qed

end
